theory Spec2Isabelle
  imports Main
begin

section \<open>Hierarchical categories: data model\<close>

text \<open>
  The repository defines two tree-node models on top of an external nested-set tree
  library: the abstract \<open>CategoryBase\<close> (base.py) and the concrete \<open>Category\<close>
  (models.py). Both are rows of one table with the nested-set coordinates
  \<open>tree_id\<close>, \<open>lft\<close>, \<open>rght\<close>, \<open>level\<close> and a \<open>parent\<close> reference, which the tree
  library contributes, and the payload fields declared in the source. One record carries
  the union of the fields the two classes declare and that their methods read or write.

  \<open>cid\<close> is the primary key \<open>id\<close>: \<open>None\<close> for an instance that was never saved.
  \<open>thumbnail\<close> stands for the file field of \<open>Category\<close>: \<open>None\<close> when no file is attached,
  otherwise the pair that \<open>get_image_dimensions\<close> reports for the attached file.
\<close>

record category =
  cid :: "nat option"
  parent :: "nat option"
  tree_id :: nat
  lft :: nat
  rght :: nat
  level :: nat
  name :: string
  slug :: string
  active :: bool
  unicode_name :: "string option"
  alternate_url :: string
  thumbnail :: "(int option \<times> int option) option"
  thumbnail_width :: "int option"
  thumbnail_height :: "int option"

text \<open>The table: the rows in storage order.\<close>

type_synonym store = "category list"

section \<open>The tree store\<close>

text \<open>
  Modelled from the spec: the range queries of the external nested-set tree library
  (\<open>get_descendants\<close>, \<open>get_ancestors\<close>), which is not part of the repository.
  The spec's data model: for every node \<open>left < right\<close>, nodes are grouped into disjoint
  trees by \<open>tree_id\<close>, and a descendant's \<open>[left, right]\<close> range is strictly nested inside
  its ancestor's. \<open>encloses a m\<close> says that the range of \<open>m\<close> is a range strictly nested
  inside the range of \<open>a\<close>, in the same tree.
\<close>

definition encloses :: "category \<Rightarrow> category \<Rightarrow> bool" where
  "encloses a m \<longleftrightarrow>
     tree_id m = tree_id a \<and> lft a < lft m \<and> lft m < rght m \<and> rght m < rght a"

definition same_node :: "category \<Rightarrow> category \<Rightarrow> bool" where
  "same_node r n \<longleftrightarrow> tree_id r = tree_id n \<and> lft r = lft n \<and> rght r = rght n"

text \<open>
  Modelled from the spec: \<open>getDescendants(node)\<close>, the rows below \<open>node\<close>, in the model's
  default ordering (\<open>tree_id\<close>, \<open>lft\<close>). The query reads the coordinates of the instance in
  memory and the rows of the table.
\<close>

definition get_descendants :: "store \<Rightarrow> category \<Rightarrow> category list" where
  "get_descendants st n = sort_key lft (filter (encloses n) st)"

text \<open>
  Modelled from the spec: \<open>getAncestors(node, includeSelf)\<close>, the rows above \<open>node\<close>,
  root first (ascending \<open>lft\<close>); with \<open>include_self\<close> the row of the node itself comes last.
\<close>

definition get_ancestors :: "store \<Rightarrow> category \<Rightarrow> bool \<Rightarrow> category list" where
  "get_ancestors st n include_self =
     sort_key lft (filter (\<lambda>a. encloses a n \<or> (include_self \<and> same_node a n)) st)"

text \<open>The next free primary key of the table.\<close>

definition next_id :: "store \<Rightarrow> nat" where
  "next_id st = Suc (fold (\<lambda>r m. case cid r of None \<Rightarrow> m | Some i \<Rightarrow> max i m) st 0)"

text \<open>
  The write itself: an instance with an id overwrites the row(s) of that id, or is
  inserted when the table has none; an instance without id is inserted under a fresh id,
  which the instance in memory receives. Where the tree library places a node in the
  nested set is outside the repository: the record carries the coordinates the library has
  given it.
\<close>

definition write_row :: "store \<Rightarrow> category \<Rightarrow> store \<times> category" where
  "write_row st n =
     (case cid n of
        None \<Rightarrow> (let n' = n\<lparr>cid := Some (next_id st)\<rparr> in (st @ [n'], n'))
      | Some i \<Rightarrow>
          (if \<exists>r \<in> set st. cid r = Some i
           then (map (\<lambda>r. if cid r = Some i then n else r) st, n)
           else (st @ [n], n)))"

text \<open>
  Errors: the store's refusal of a write (an integrity error of the database), the three
  validation failures of the admin form, and Python's \<open>AttributeError\<close>.
\<close>

datatype error = StoreError | DuplicateSlug | SelfParent | CyclicParent | AttributeError

text \<open>
  The constraints that the two models declare for their tables. \<open>unique_together\<close> of
  \<open>CategoryBase.Meta\<close> (base.py) is \<open>(parent, name)\<close> and \<open>(tree_id, slug)\<close>; that of
  \<open>Category.Meta\<close> (models.py) is \<open>(parent, name)\<close>. A row collides with the rows of
  another id; a null \<open>parent\<close> collides with nothing, as null does in a database's unique
  index. The column \<open>unicode_name\<close> of \<open>Category\<close> is declared without \<open>null=True\<close>, so
  it refuses \<open>None\<close>; that of \<open>CategoryBase\<close> accepts it.
\<close>

definition unique_parent_name :: "store \<Rightarrow> category \<Rightarrow> bool" where
  "unique_parent_name st n \<longleftrightarrow>
     \<not> (\<exists>r \<in> set st. cid r \<noteq> cid n \<and> parent n \<noteq> None \<and> parent r = parent n \<and> name r = name n)"

definition unique_tree_slug :: "store \<Rightarrow> category \<Rightarrow> bool" where
  "unique_tree_slug st n \<longleftrightarrow>
     \<not> (\<exists>r \<in> set st. cid r \<noteq> cid n \<and> tree_id r = tree_id n \<and> slug r = slug n)"

definition CategoryBase_Meta :: "store \<Rightarrow> category \<Rightarrow> bool" where
  "CategoryBase_Meta st n \<longleftrightarrow> unique_parent_name st n \<and> unique_tree_slug st n"

definition Category_Meta :: "store \<Rightarrow> category \<Rightarrow> bool" where
  "Category_Meta st n \<longleftrightarrow> unicode_name n \<noteq> None \<and> unique_parent_name st n"

text \<open>
  Modelled from the spec: \<open>persist(Category) -> Result<(), StoreError>\<close> of the Tree Store,
  the \<open>save\<close> of the superclass that both \<open>save\<close> methods call. The store enforces the
  constraints of the model's table: a record that breaks one is refused with a
  \<open>StoreError\<close> and nothing is written; otherwise the record is written.
\<close>

definition persist ::
  "(store \<Rightarrow> category \<Rightarrow> bool) \<Rightarrow> store \<Rightarrow> category \<Rightarrow> error + store \<times> category" where
  "persist constraints st n =
     (if constraints st n then Inr (write_row st n) else Inl StoreError)"

section \<open>Slugs\<close>

text \<open>
  Modelled from the spec: the URL-safe form of a name, the web framework's \<open>slugify\<close>
  filter (not part of the repository), on ASCII text: drop every character that is not a
  word character, white space or a hyphen, strip white space at both ends, lowercase, and
  replace every run of hyphens and white space by one hyphen. Characters outside ASCII are
  dropped (the filter's decomposition of accented letters is not modelled).
\<close>

definition is_word_char :: "char \<Rightarrow> bool" where
  "is_word_char c \<longleftrightarrow>
     c \<in> set ''abcdefghijklmnopqrstuvwxyzABCDEFGHIJKLMNOPQRSTUVWXYZ0123456789_''"

definition is_space :: "char \<Rightarrow> bool" where
  "is_space c \<longleftrightarrow> c \<in> {CHR '' '', CHR 0x09, CHR 0x0A, CHR 0x0B, CHR 0x0C, CHR 0x0D}"

definition lower :: "char \<Rightarrow> char" where
  "lower c =
     (case map_of (zip ''ABCDEFGHIJKLMNOPQRSTUVWXYZ'' ''abcdefghijklmnopqrstuvwxyz'') c of
        Some d \<Rightarrow> d
      | None \<Rightarrow> c)"

definition strip :: "string \<Rightarrow> string" where
  "strip s = rev (dropWhile is_space (rev (dropWhile is_space s)))"

definition is_sep :: "char \<Rightarrow> bool" where
  "is_sep c \<longleftrightarrow> c = CHR ''-'' \<or> is_space c"

function collapse_seps :: "string \<Rightarrow> string" where
  "collapse_seps [] = []"
| "collapse_seps (c # cs) =
     (if is_sep c then CHR ''-'' # collapse_seps (dropWhile is_sep cs)
      else c # collapse_seps cs)"
  by pat_completeness auto
termination
  by (relation "measure length") (auto simp: length_dropWhile_le less_Suc_eq_le)

definition slugify :: "string \<Rightarrow> string" where
  "slugify s =
     collapse_seps
       (map lower (strip (filter (\<lambda>c. is_word_char c \<or> is_space c \<or> c = CHR ''-'') s)))"

section \<open>Saving a node: the cascade\<close>

text \<open>
  \<open>CategoryBase.save\<close> (base.py). \<open>SLUG_TRANSLITERATOR\<close> is a setting whose value is not part
  of the repository: it is the parameter \<open>tr\<close>. The method mutates the instance in memory
  (slug, and the id that saving assigns), so the instance is returned in every case. With it
  comes the table after the save, or the error that the method raised: an error of the
  store, in the node's own write or in the save of a descendant, is not caught and ends the
  method. (What the table holds after a raised error depends on the caller's transaction
  and is not described.) The loop runs over the descendants as the query returns them after
  the node's own row is written; each \<open>item\<close> is the row as fetched, and \<open>item.save()\<close> is
  the same method.
\<close>

function CategoryBase_save ::
  "(string \<Rightarrow> string) \<Rightarrow> store \<Rightarrow> category \<Rightarrow> (error + store) \<times> category" where
  "CategoryBase_save tr st self0 =
     (let self1 = (if slug self0 = []
                   then self0\<lparr>slug := take 50 (slugify (tr (name self0)))\<rparr>
                   else self0)
      in case persist CategoryBase_Meta st self1 of
           Inl e \<Rightarrow> (Inl e, self1)
         | Inr (st1, self2) \<Rightarrow>
             if \<not> active self2
             then (fold (\<lambda>item acc.
                           case acc of
                             Inl e \<Rightarrow> Inl e
                           | Inr s \<Rightarrow>
                               if active item \<noteq> active self2
                               then fst (CategoryBase_save tr s (item\<lparr>active := active self2\<rparr>))
                               else Inr s)
                     (get_descendants st1 self2) (Inr st1), self2)
             else (Inr st1, self2))"
  by pat_completeness auto
termination
proof (relation "measure (\<lambda>(tr, st, n). rght n - lft n)", goal_cases)
  case 1
  show ?case by simp
next
  case (2 tr st self0 self1 w st1 self2 item s)
  from 2 have "write_row st self1 = (st1, self2)"
    by (simp add: persist_def split: if_splits)
  then have "rght self2 = rght self1 \<and> lft self2 = lft self1"
    by (auto simp: write_row_def Let_def split: option.splits if_splits)
  moreover from 2 have "rght self1 = rght self0 \<and> lft self1 = lft self0"
    by (simp split: if_splits)
  moreover from 2 have "encloses self2 item"
    by (simp add: get_descendants_def)
  ultimately show ?case
    by (auto simp: encloses_def)
qed

text \<open>
  \<open>Category.save\<close> (models.py): the slug, the thumbnail dimensions, the write, and the loop
  over the descendants, which here is not guarded by the node's own flag.
\<close>

function Category_save :: "store \<Rightarrow> category \<Rightarrow> (error + store) \<times> category" where
  "Category_save st self0 =
     (let self1 = (if slug self0 = []
                   then self0\<lparr>slug := take 50 (slugify (name self0))\<rparr>
                   else self0);
          (width, height) = (case thumbnail self1 of
                               Some dims \<Rightarrow> dims
                             | None \<Rightarrow> (None, None));
          self2 = self1\<lparr>thumbnail_width := width, thumbnail_height := height\<rparr>
      in case persist Category_Meta st self2 of
           Inl e \<Rightarrow> (Inl e, self2)
         | Inr (st1, self3) \<Rightarrow>
             (fold (\<lambda>item acc.
                      case acc of
                        Inl e \<Rightarrow> Inl e
                      | Inr s \<Rightarrow>
                          if active item \<noteq> active self3
                          then fst (Category_save s (item\<lparr>active := active self3\<rparr>))
                          else Inr s)
                (get_descendants st1 self3) (Inr st1), self3))"
  by pat_completeness auto
termination
proof (relation "measure (\<lambda>(st, n). rght n - lft n)", goal_cases)
  case 1
  show ?case by simp
next
  case (2 st self0 self1 dims width height self2 w st1 self3 item s)
  from 2 have "write_row st self2 = (st1, self3)"
    by (simp add: persist_def split: if_splits)
  then have "rght self3 = rght self2 \<and> lft self3 = lft self2"
    by (auto simp: write_row_def Let_def split: option.splits if_splits)
  moreover from 2 have "rght self2 = rght self0 \<and> lft self2 = lft self0"
    by (simp split: if_splits)
  moreover from 2 have "encloses self3 item"
    by (simp add: get_descendants_def)
  ultimately show ?case
    by (auto simp: encloses_def)
qed

section \<open>Display names, paths and URLs\<close>

text \<open>Python's \<open>delimiter.join(list)\<close>.\<close>

fun join :: "string \<Rightarrow> string list \<Rightarrow> string" where
  "join d [] = []"
| "join d [x] = x"
| "join d (x # y # ys) = x @ d @ join d (y # ys)"

text \<open>
  \<open>CategoryBase.generate_unicode_name\<close> (base.py). \<open>ancestors\<close> is the query result,
  \<open>ancestors_list\<close> the list copied from it; the \<open>del\<close> acts on the copy, and the final
  comprehension of this class iterates \<open>ancestors\<close>.
\<close>

definition CategoryBase_generate_unicode_name :: "store \<Rightarrow> category \<Rightarrow> string" where
  "CategoryBase_generate_unicode_name st self =
     (let ancestors = get_ancestors st self False;
          ancestors_list = ancestors;
          ancestors_list = (if length ancestors_list > 0
                               \<and> \<not> slug (hd ancestors_list) = ''magazine''
                               \<and> \<not> slug (hd ancestors_list) = ''nextgov-categories''
                            then tl ancestors_list else ancestors_list)
      in join '' > '' (map name ancestors @ [name self]))"

text \<open>\<open>CategoryBase.__unicode__\<close>: the override, when set and non-empty, wins.\<close>

definition CategoryBase_unicode :: "store \<Rightarrow> category \<Rightarrow> string" where
  "CategoryBase_unicode st self =
     (case unicode_name self of
        Some u \<Rightarrow> if u \<noteq> [] then u else CategoryBase_generate_unicode_name st self
      | None \<Rightarrow> CategoryBase_generate_unicode_name st self)"

text \<open>
  \<open>Category.generate_unicode_name\<close> (models.py): the final comprehension iterates
  \<open>ancestors_list\<close>.
\<close>

definition Category_generate_unicode_name :: "store \<Rightarrow> category \<Rightarrow> string" where
  "Category_generate_unicode_name st self =
     (let ancestors = get_ancestors st self False;
          ancestors_list = ancestors;
          ancestors_list = (if length ancestors_list > 0
                               \<and> \<not> slug (hd ancestors_list) = ''magazine''
                               \<and> \<not> slug (hd ancestors_list) = ''nextgov-categories''
                            then tl ancestors_list else ancestors_list)
      in join '' > '' (map name ancestors_list @ [name self]))"

definition Category_unicode :: "store \<Rightarrow> category \<Rightarrow> string" where
  "Category_unicode st self =
     (case unicode_name self of
        Some u \<Rightarrow> if u \<noteq> [] then u else Category_generate_unicode_name st self
      | None \<Rightarrow> Category_generate_unicode_name st self)"

text \<open>
  \<open>Category.get_absolute_url\<close> (models.py). \<open>prefix\<close> is the configured base path, the
  value of \<open>reverse('categories_tree_list')\<close>.
\<close>

definition Category_get_absolute_url :: "string \<Rightarrow> store \<Rightarrow> category \<Rightarrow> string" where
  "Category_get_absolute_url prefix st self =
     (if alternate_url self \<noteq> [] then alternate_url self
      else
        (let ancestors = get_ancestors st self False @ [self];
             ancestors = (if length ancestors > 0 then tl ancestors else ancestors)
         in prefix @ join ''/'' (map slug ancestors) @ ''/''))"

text \<open>
  The attributes that code attaches to an instance at run time, by attribute name. Inside
  the body of class \<open>CategoryBase\<close> the identifier \<open>self.__all_categories\<close> is the attribute
  \<open>_CategoryBase__all_categories\<close> (Python's private-name mangling), while the string
  literal that \<open>hasattr\<close> receives is taken as it is.
\<close>

type_synonym attrs = "string \<rightharpoonup> string list"

text \<open>The loop of \<open>all_categories\<close>; \<open>acc\<close> is the list bound to the attribute.\<close>

definition all_categories_loop :: "string \<Rightarrow> category list \<Rightarrow> string list \<Rightarrow> string list" where
  "all_categories_loop delimiter cats acc0 =
     fold (\<lambda>category acc.
             (let tmp = [];
                  tmp = fold (\<lambda>existing t. t @ [existing]) acc tmp;
                  tmp = tmp @ [name category]
              in acc @ [join delimiter tmp]))
       cats acc0"

text \<open>\<open>CategoryBase.all_categories\<close> (base.py): the result and the instance's attributes.\<close>

definition CategoryBase_all_categories ::
  "store \<Rightarrow> attrs \<Rightarrow> category \<Rightarrow> string \<Rightarrow> error + (string list \<times> attrs)" where
  "CategoryBase_all_categories st at self delimiter =
     (if at ''__all_categories'' \<noteq> None
      then (case at ''_CategoryBase__all_categories'' of
              Some cached \<Rightarrow> Inr (cached, at)
            | None \<Rightarrow> Inl AttributeError)
      else
        (let r = all_categories_loop delimiter (get_ancestors st self True) []
         in Inr (r, at(''_CategoryBase__all_categories'' \<mapsto> r))))"

section \<open>Admin form validation\<close>

text \<open>
  \<open>CategoryBaseAdminForm.clean\<close> (base.py) in its two parts. The cleaned data are the
  candidate \<open>parent\<close> (a row, or \<open>None\<close>) and the candidate slug; \<open>inst\<close> is the instance
  being edited. The first part is the slug check of lines 128 to 143.
\<close>

definition validate_slug :: "store \<Rightarrow> category \<Rightarrow> category option \<Rightarrow> string \<Rightarrow> error + unit" where
  "validate_slug st inst parent_opt candidate =
     (let this_tree_slugs =
            (case parent_opt of
               None \<Rightarrow> []
             | Some p \<Rightarrow>
                 (let parent_tree_id = tree_id p
                  in map slug (filter (\<lambda>c. cid c \<noteq> cid inst)
                                 (filter (\<lambda>c. tree_id c = parent_tree_id) st))))
      in if candidate \<in> set this_tree_slugs then Inl DuplicateSlug else Inr ())"

text \<open>The second part: the parent check of lines 145 to 157.\<close>

definition validate_parent :: "store \<Rightarrow> category \<Rightarrow> category option \<Rightarrow> error + unit" where
  "validate_parent st inst parent_opt =
     (let decendant_ids = map cid (get_descendants st inst)
      in case parent_opt of
           None \<Rightarrow> Inr ()
         | Some p \<Rightarrow>
             if cid inst = None then Inr ()
             else if cid p = cid inst then Inl SelfParent
             else if cid p \<in> set decendant_ids then Inl CyclicParent
             else Inr ())"

text \<open>
  The whole method: nothing is checked when the form's field validation has failed
  (\<open>is_valid\<close>); the slug check comes first.
\<close>

definition clean :: "bool \<Rightarrow> store \<Rightarrow> category \<Rightarrow> category option \<Rightarrow> string \<Rightarrow> error + unit" where
  "clean is_valid st inst parent_opt candidate =
     (if \<not> is_valid then Inr ()
      else case validate_slug st inst parent_opt candidate of
             Inl e \<Rightarrow> Inl e
           | Inr _ \<Rightarrow> validate_parent st inst parent_opt)"

section \<open>Auxiliary notions\<close>

text \<open>
  The instance as each \<open>save\<close> hands it to the superclass: with the slug derived when it
  was empty and, for \<open>Category\<close>, the thumbnail dimensions set.
\<close>

definition base_prep :: "(string \<Rightarrow> string) \<Rightarrow> category \<Rightarrow> category" where
  "base_prep tr self0 =
     (if slug self0 = [] then self0\<lparr>slug := take 50 (slugify (tr (name self0)))\<rparr> else self0)"

definition cat_prep :: "category \<Rightarrow> category" where
  "cat_prep self0 =
     (let self1 = (if slug self0 = []
                   then self0\<lparr>slug := take 50 (slugify (name self0))\<rparr>
                   else self0);
          (width, height) = (case thumbnail self1 of
                               Some dims \<Rightarrow> dims
                             | None \<Rightarrow> (None, None))
      in self1\<lparr>thumbnail_width := width, thumbnail_height := height\<rparr>)"

text \<open>
  The body of the loop over the descendants, for each of the two methods: once a save has
  raised, the rest of the loop does not run.
\<close>

definition CategoryBase_cascade_step ::
  "(string \<Rightarrow> string) \<Rightarrow> category \<Rightarrow> category \<Rightarrow> error + store \<Rightarrow> error + store" where
  "CategoryBase_cascade_step tr self2 =
     (\<lambda>item acc.
        case acc of
          Inl e \<Rightarrow> Inl e
        | Inr s \<Rightarrow>
            if active item \<noteq> active self2
            then fst (CategoryBase_save tr s (item\<lparr>active := active self2\<rparr>))
            else Inr s)"

definition Category_cascade_step :: "category \<Rightarrow> category \<Rightarrow> error + store \<Rightarrow> error + store" where
  "Category_cascade_step self3 =
     (\<lambda>item acc.
        case acc of
          Inl e \<Rightarrow> Inl e
        | Inr s \<Rightarrow>
            if active item \<noteq> active self3
            then fst (Category_save s (item\<lparr>active := active self3\<rparr>))
            else Inr s)"

text \<open>
  \<open>carries_over r r'\<close>: the record \<open>r'\<close> is the node of \<open>r\<close> (same tree, bounds and name,
  and the id of \<open>r\<close> when \<open>r\<close> has one) and has the slug of \<open>r\<close> unless that was empty.
\<close>

definition carries_over :: "category \<Rightarrow> category \<Rightarrow> bool" where
  "carries_over r r' \<longleftrightarrow>
     tree_id r' = tree_id r \<and> lft r' = lft r \<and> rght r' = rght r \<and> name r' = name r
     \<and> (cid r \<noteq> None \<longrightarrow> cid r' = cid r)
     \<and> (slug r \<noteq> [] \<longrightarrow> slug r' = slug r)"

text \<open>
  Successive calls of \<open>all_categories\<close> on one instance, each against the table as it is
  at the time of the call; the attributes the instance has gathered are passed on.
\<close>

fun repeated_all_categories ::
  "attrs \<Rightarrow> category \<Rightarrow> string \<Rightarrow> store list \<Rightarrow> (error + string list) list" where
  "repeated_all_categories at self delimiter [] = []"
| "repeated_all_categories at self delimiter (st # sts) =
     (case CategoryBase_all_categories st at self delimiter of
        Inl e \<Rightarrow> [Inl e]
      | Inr (r, at') \<Rightarrow> Inr r # repeated_all_categories at' self delimiter sts)"

section \<open>A small tree\<close>

text \<open>
  A stored row of tree 1 with the given id, parent, level, bounds, name, slug and flag and
  an empty display-name override; and the chain News (1, 6) over Politics (2, 5) over Senate
  (3, 4) with the given flags.
\<close>

definition stored_row ::
  "nat \<Rightarrow> nat option \<Rightarrow> nat \<Rightarrow> nat \<Rightarrow> nat \<Rightarrow> string \<Rightarrow> string \<Rightarrow> bool \<Rightarrow> category" where
  "stored_row i p lv l r nm sl a =
     \<lparr>cid = Some i, parent = p, tree_id = 1, lft = l, rght = r, level = lv,
      name = nm, slug = sl, active = a, unicode_name = Some [], alternate_url = [],
      thumbnail = None, thumbnail_width = None, thumbnail_height = None\<rparr>"

definition news_row :: "bool \<Rightarrow> category" where
  "news_row a = stored_row 1 None 0 1 6 ''News'' ''news'' a"

definition politics_row :: "bool \<Rightarrow> category" where
  "politics_row a = stored_row 2 (Some 1) 1 2 5 ''Politics'' ''politics'' a"

definition senate_row :: "bool \<Rightarrow> category" where
  "senate_row a = stored_row 3 (Some 2) 2 3 4 ''Senate'' ''senate'' a"

definition example_tree :: "bool \<Rightarrow> bool \<Rightarrow> bool \<Rightarrow> store" where
  "example_tree a b c = [news_row a, politics_row b, senate_row c]"

text \<open>
  An instance as the constructor leaves it, never saved: no id, no slug yet, the default
  \<open>None\<close> of \<open>unicode_name\<close>, a tree of its own.
\<close>

definition fresh_node :: "string \<Rightarrow> category" where
  "fresh_node nm =
     \<lparr>cid = None, parent = None, tree_id = 2, lft = 1, rght = 2, level = 0,
      name = nm, slug = [], active = True, unicode_name = None, alternate_url = [],
      thumbnail = None, thumbnail_width = None, thumbnail_height = None\<rparr>"

text \<open>The same chain after the root was renamed.\<close>

definition renamed_tree :: store where
  "renamed_tree = [(news_row True)\<lparr>name := ''World''\<rparr>, politics_row True, senate_row True]"

lemmas example_defs =
  example_tree_def renamed_tree_def news_row_def politics_row_def senate_row_def stored_row_def
  fresh_node_def

section \<open>Facts about the store\<close>

lemma fold_invariant:
  assumes "P s" and "\<And>x s. x \<in> set xs \<Longrightarrow> P s \<Longrightarrow> P (f x s)"
  shows "P (fold f xs s)"
  using assms by (induction xs arbitrary: s) simp_all

lemma set_get_descendants: "set (get_descendants st n) = {m \<in> set st. encloses n m}"
  by (simp add: get_descendants_def)

lemma write_row_snd:
  "snd (write_row s x) = (case cid x of None \<Rightarrow> x\<lparr>cid := Some (next_id s)\<rparr> | Some i \<Rightarrow> x)"
  by (simp add: write_row_def Let_def split: option.splits)

lemma write_row_snd_fields [simp]:
  "active (snd (write_row s x)) = active x"
  "slug (snd (write_row s x)) = slug x"
  "name (snd (write_row s x)) = name x"
  "tree_id (snd (write_row s x)) = tree_id x"
  "lft (snd (write_row s x)) = lft x"
  "rght (snd (write_row s x)) = rght x"
  "cid (snd (write_row s x)) \<noteq> None"
  by (simp_all add: write_row_snd split: option.splits)

lemma write_row_snd_cid: "cid x \<noteq> None \<Longrightarrow> cid (snd (write_row s x)) = cid x"
  by (auto simp: write_row_snd split: option.splits)

lemma encloses_write_row [simp]:
  "encloses (snd (write_row s x)) m = encloses x m"
  "encloses m (snd (write_row s x)) = encloses m x"
  by (simp_all add: encloses_def)

lemma base_prep_fields [simp]:
  "active (base_prep tr x) = active x"
  "name (base_prep tr x) = name x"
  "cid (base_prep tr x) = cid x"
  "tree_id (base_prep tr x) = tree_id x"
  "lft (base_prep tr x) = lft x"
  "rght (base_prep tr x) = rght x"
  by (simp_all add: base_prep_def)

lemma encloses_base_prep [simp]:
  "encloses (base_prep tr x) m = encloses x m"
  "encloses m (base_prep tr x) = encloses m x"
  by (simp_all add: encloses_def)

lemma encloses_active_update [simp]:
  "encloses (x\<lparr>active := a\<rparr>) m = encloses x m"
  "encloses m (x\<lparr>active := a\<rparr>) = encloses m x"
  by (simp_all add: encloses_def)

lemma get_descendants_of_saved [simp]:
  "get_descendants st (snd (write_row s x)) = get_descendants st x"
  "get_descendants st (base_prep tr x) = get_descendants st x"
  "get_descendants st (x\<lparr>active := a\<rparr>) = get_descendants st x"
  by (simp_all add: get_descendants_def cong: filter_cong)

lemma encloses_trans: "encloses a b \<Longrightarrow> encloses b c \<Longrightarrow> encloses a c"
  by (auto simp: encloses_def)

lemma encloses_irrefl: "\<not> encloses a a"
  by (simp add: encloses_def)

lemma set_write_row: "set (fst (write_row s x)) \<subseteq> insert (snd (write_row s x)) (set s)"
  by (auto simp: write_row_def Let_def split: option.splits)

lemma write_row_mem: "snd (write_row s x) \<in> set (fst (write_row s x))"
  by (auto simp: write_row_def Let_def split: option.splits)

lemma next_id_bound_aux:
  "m \<le> fold (\<lambda>r m. case cid r of None \<Rightarrow> m | Some i \<Rightarrow> max i m) s m"
proof (induction s arbitrary: m)
  case Nil
  show ?case by simp
next
  case (Cons a s)
  show ?case
  proof (cases "cid a")
    case None
    then show ?thesis using Cons.IH [of m] by simp
  next
    case (Some i)
    have "m \<le> max i m" by simp
    also have "max i m \<le> fold (\<lambda>r m. case cid r of None \<Rightarrow> m | Some i \<Rightarrow> max i m) s (max i m)"
      by (rule Cons.IH)
    finally show ?thesis using Some by simp
  qed
qed

lemma next_id_fresh_aux:
  "r \<in> set s \<Longrightarrow> cid r = Some i \<Longrightarrow>
     i \<le> fold (\<lambda>r m. case cid r of None \<Rightarrow> m | Some i \<Rightarrow> max i m) s m"
proof (induction s arbitrary: m)
  case Nil
  then show ?case by simp
next
  case (Cons a s)
  show ?case
  proof (cases "r = a")
    case True
    have "max i m \<le> fold (\<lambda>r m. case cid r of None \<Rightarrow> m | Some i \<Rightarrow> max i m) s (max i m)"
      by (rule next_id_bound_aux)
    then show ?thesis using True Cons.prems by simp
  next
    case False
    then have "r \<in> set s" using Cons.prems by simp
    then show ?thesis using Cons.IH Cons.prems by simp
  qed
qed

lemma next_id_fresh: "r \<in> set s \<Longrightarrow> cid r \<noteq> Some (next_id s)"
proof
  assume "r \<in> set s" and "cid r = Some (next_id s)"
  then have "next_id s \<le> fold (\<lambda>r m. case cid r of None \<Rightarrow> m | Some i \<Rightarrow> max i m) s 0"
    by (rule next_id_fresh_aux)
  then show False by (simp add: next_id_def)
qed

text \<open>A row stays in the table when a record of another id is written.\<close>

lemma write_row_keeps:
  "r \<in> set s \<Longrightarrow> cid x = None \<or> cid r \<noteq> cid x \<Longrightarrow> r \<in> set (fst (write_row s x))"
  by (auto simp: write_row_def Let_def split: option.splits)

text \<open>After a write, every row with the id of the written record is that record.\<close>

lemma write_row_unique:
  "r \<in> set (fst (write_row s x)) \<Longrightarrow> cid r = cid (snd (write_row s x)) \<Longrightarrow> r = snd (write_row s x)"
  by (auto simp: write_row_def Let_def next_id_fresh split: option.splits if_splits)

lemma CategoryBase_save_eq:
  "CategoryBase_save tr st n =
     (case persist CategoryBase_Meta st (base_prep tr n) of
        Inl e \<Rightarrow> (Inl e, base_prep tr n)
      | Inr w \<Rightarrow>
          if \<not> active (snd w)
          then (fold (\<lambda>item acc.
                        case acc of
                          Inl e \<Rightarrow> Inl e
                        | Inr s \<Rightarrow>
                            if active item \<noteq> active (snd w)
                            then fst (CategoryBase_save tr s (item\<lparr>active := active (snd w)\<rparr>))
                            else Inr s)
                  (get_descendants (fst w) (snd w)) (Inr (fst w)), snd w)
          else (Inr (fst w), snd w))"
  by (subst CategoryBase_save.simps) (simp only: base_prep_def Let_def case_prod_unfold)

declare CategoryBase_save.simps [simp del]

lemma CategoryBase_save_step:
  "CategoryBase_save tr st n =
     (case persist CategoryBase_Meta st (base_prep tr n) of
        Inl e \<Rightarrow> (Inl e, base_prep tr n)
      | Inr w \<Rightarrow>
          if \<not> active (snd w)
          then (fold (CategoryBase_cascade_step tr (snd w))
                  (get_descendants (fst w) (snd w)) (Inr (fst w)), snd w)
          else (Inr (fst w), snd w))"
  unfolding CategoryBase_cascade_step_def by (rule CategoryBase_save_eq)

text \<open>A refused write ends the method; the instance keeps the slug it was given.\<close>

lemma CategoryBase_save_refused:
  "\<not> CategoryBase_Meta st (base_prep tr n) \<Longrightarrow>
     CategoryBase_save tr st n = (Inl StoreError, base_prep tr n)"
  by (simp add: CategoryBase_save_step persist_def)

lemma CategoryBase_save_written:
  "CategoryBase_Meta st (base_prep tr n) \<Longrightarrow>
     CategoryBase_save tr st n =
       (if active n then Inr (fst (write_row st (base_prep tr n)))
        else fold (CategoryBase_cascade_step tr (snd (write_row st (base_prep tr n))))
               (get_descendants (fst (write_row st (base_prep tr n))) n)
               (Inr (fst (write_row st (base_prep tr n)))),
        snd (write_row st (base_prep tr n)))"
  by (simp add: CategoryBase_save_step persist_def)

lemma CategoryBase_save_snd:
  "snd (CategoryBase_save tr st n) =
     (if CategoryBase_Meta st (base_prep tr n)
      then snd (write_row st (base_prep tr n)) else base_prep tr n)"
  by (simp add: CategoryBase_save_refused CategoryBase_save_written)

lemma CategoryBase_save_Inr:
  "fst (CategoryBase_save tr st n) = Inr st' \<Longrightarrow> CategoryBase_Meta st (base_prep tr n)"
  by (rule ccontr) (simp add: CategoryBase_save_refused)

lemma CategoryBase_cascade_step_Inl [simp]:
  "CategoryBase_cascade_step tr x item (Inl e) = Inl e"
  by (simp add: CategoryBase_cascade_step_def)

lemma CategoryBase_cascade_Inl [simp]:
  "fold (CategoryBase_cascade_step tr x) items (Inl e) = Inl e"
  by (induction items) simp_all

lemma CategoryBase_cascade_step_Inr:
  "CategoryBase_cascade_step tr (snd (write_row st x)) item (Inr s) =
     (if active item \<noteq> active x
      then fst (CategoryBase_save tr s (item\<lparr>active := active x\<rparr>)) else Inr s)"
  by (simp add: CategoryBase_cascade_step_def)

section \<open>Invariants of \<open>CategoryBase.save\<close>\<close>

text \<open>
  An invariant of the table that every write of the cascade keeps holds of the table of
  every save that returns. \<open>Q\<close> is what is known of the instances that are saved.
\<close>

lemma CategoryBase_save_invariant_aux:
  assumes "write": "\<And>s x. I s \<Longrightarrow> Q x \<Longrightarrow> I (fst (write_row s (base_prep tr x)))"
    and item: "\<And>s x item. I s \<Longrightarrow> Q x \<Longrightarrow> item \<in> set s \<Longrightarrow> encloses x item
                 \<Longrightarrow> Q (item\<lparr>active := active x\<rparr>)"
  shows "tr' = tr \<Longrightarrow> I s \<Longrightarrow> Q x \<Longrightarrow>
           (\<forall>s'. fst (CategoryBase_save tr' s x) = Inr s' \<longrightarrow> I s')"
proof (induction tr' s x rule: CategoryBase_save.induct)
  case (1 tr' st self0)
  let ?w = "write_row st (base_prep tr self0)"
  let ?P = "\<lambda>acc :: error + store. \<forall>s'. acc = Inr s' \<longrightarrow> I s'"
  from "1.prems" have tr: "tr' = tr" and Ist: "I st" and Q0: "Q self0" by simp_all
  have I1: "I (fst ?w)" using Ist Q0 by (rule "write")
  show ?case
  proof (cases "CategoryBase_Meta st (base_prep tr self0)")
    case False
    then show ?thesis by (simp add: CategoryBase_save_refused tr)
  next
    case ok: True
    have "?P (fold (CategoryBase_cascade_step tr (snd ?w)) (get_descendants (fst ?w) self0)
               (Inr (fst ?w)))"
      if inactive: "\<not> active self0"
    proof (rule fold_invariant)
      show "?P (Inr (fst ?w))" using I1 by simp
    next
      fix item and acc :: "error + store"
      assume m: "item \<in> set (get_descendants (fst ?w) self0)" and Pacc: "?P acc"
      show "?P (CategoryBase_cascade_step tr (snd ?w) item acc)"
      proof (cases acc)
        case (Inl e)
        then show ?thesis by simp
      next
        case (Inr s)
        with Pacc have Is: "I s" by simp
        show ?thesis
        proof (cases "active item \<noteq> active self0")
          case neq: True
          from m have "item \<in> set (fst ?w)" and "encloses self0 item"
            by (simp_all add: set_get_descendants)
          with I1 Q0 have Qi: "Q (item\<lparr>active := active self0\<rparr>)" by (rule item)
          have "?P (fst (CategoryBase_save tr' s (item\<lparr>active := active (snd ?w)\<rparr>)))"
          proof (rule "1.IH" [of "base_prep tr self0" ?w "fst ?w" "snd ?w" item s])
            show "base_prep tr self0 = (if slug self0 = []
                     then self0\<lparr>slug := take 50 (slugify (tr' (name self0)))\<rparr> else self0)"
              by (simp add: base_prep_def tr)
            show "persist CategoryBase_Meta st (base_prep tr self0) = Inr ?w"
              using ok by (simp add: persist_def)
            show "(fst ?w, snd ?w) = ?w" by simp
            show "\<not> active (snd ?w)" using inactive by simp
            show "item \<in> set (get_descendants (fst ?w) (snd ?w))" using m by simp
            show "active item \<noteq> active (snd ?w)" using neq by simp
            show "tr' = tr" by (rule tr)
            show "I s" by (rule Is)
            show "Q (item\<lparr>active := active (snd ?w)\<rparr>)" using Qi by simp
          qed
          then show ?thesis using neq tr Inr by (simp add: CategoryBase_cascade_step_Inr)
        next
          case False
          then show ?thesis using Is Inr by (simp add: CategoryBase_cascade_step_Inr)
        qed
      qed
    qed
    then show ?thesis using I1 ok by (simp add: CategoryBase_save_written tr)
  qed
qed

lemma CategoryBase_save_invariant:
  assumes "\<And>s x. I s \<Longrightarrow> Q x \<Longrightarrow> I (fst (write_row s (base_prep tr x)))"
    and "\<And>s x item. I s \<Longrightarrow> Q x \<Longrightarrow> item \<in> set s \<Longrightarrow> encloses x item
                 \<Longrightarrow> Q (item\<lparr>active := active x\<rparr>)"
    and "I s" and "Q x" and "fst (CategoryBase_save tr s x) = Inr s'"
  shows "I s'"
  using CategoryBase_save_invariant_aux [of I Q tr tr s x] assms by blast

text \<open>The same for the outermost call, whose own write may establish the invariant.\<close>

lemma CategoryBase_save_invariant_top:
  assumes "write": "\<And>s x. I s \<Longrightarrow> Q x \<Longrightarrow> I (fst (write_row s (base_prep tr x)))"
    and item: "\<And>s x item. I s \<Longrightarrow> Q x \<Longrightarrow> item \<in> set s \<Longrightarrow> encloses x item
                 \<Longrightarrow> Q (item\<lparr>active := active x\<rparr>)"
    and first: "I (fst (write_row st (base_prep tr n)))"
    and items: "\<And>item. item \<in> set (fst (write_row st (base_prep tr n))) \<Longrightarrow> encloses n item
                 \<Longrightarrow> Q (item\<lparr>active := active n\<rparr>)"
    and ret: "fst (CategoryBase_save tr st n) = Inr st'"
  shows "I st'"
proof -
  let ?w = "write_row st (base_prep tr n)"
  let ?P = "\<lambda>acc :: error + store. \<forall>s'. acc = Inr s' \<longrightarrow> I s'"
  from ret have ok: "CategoryBase_Meta st (base_prep tr n)" by (rule CategoryBase_save_Inr)
  have "?P (fold (CategoryBase_cascade_step tr (snd ?w)) (get_descendants (fst ?w) n)
             (Inr (fst ?w)))"
  proof (rule fold_invariant)
    show "?P (Inr (fst ?w))" using first by simp
  next
    fix item and acc :: "error + store"
    assume m: "item \<in> set (get_descendants (fst ?w) n)" and Pacc: "?P acc"
    from m have "item \<in> set (fst ?w)" and "encloses n item"
      by (simp_all add: set_get_descendants)
    then have Qi: "Q (item\<lparr>active := active n\<rparr>)" by (rule items)
    show "?P (CategoryBase_cascade_step tr (snd ?w) item acc)"
    proof (cases acc)
      case (Inl e)
      then show ?thesis by simp
    next
      case (Inr s)
      with Pacc have Is: "I s" by simp
      have "\<forall>s'. fst (CategoryBase_save tr s (item\<lparr>active := active n\<rparr>)) = Inr s' \<longrightarrow> I s'"
        using "write" item Is Qi by (blast intro: CategoryBase_save_invariant [of I Q])
      then show ?thesis using Is Inr by (simp add: CategoryBase_cascade_step_Inr)
    qed
  qed
  then show ?thesis using first ok ret by (simp add: CategoryBase_save_written split: if_splits)
qed

lemma carries_over_refl: "carries_over r r"
  by (simp add: carries_over_def)

lemma carries_over_active: "carries_over r x \<Longrightarrow> carries_over r (x\<lparr>active := a\<rparr>)"
  by (simp add: carries_over_def)

lemma carries_over_write_row: "carries_over r x \<Longrightarrow> carries_over r (snd (write_row s x))"
  by (auto simp: carries_over_def write_row_snd_cid)

lemma carries_over_base_prep: "carries_over r x \<Longrightarrow> carries_over r (base_prep tr x)"
  by (auto simp: carries_over_def base_prep_def)

text \<open>Saving an inactive node adds only inactive rows.\<close>

lemma CategoryBase_save_adds_inactive:
  assumes "\<not> active x" and "\<forall>r \<in> set s. r \<in> B \<or> \<not> active r"
    and "fst (CategoryBase_save tr s x) = Inr s'"
  shows "\<forall>r \<in> set s'. r \<in> B \<or> \<not> active r"
proof (rule CategoryBase_save_invariant
    [where I = "\<lambda>s. \<forall>r \<in> set s. r \<in> B \<or> \<not> active r" and Q = "\<lambda>x::category. \<not> active x"])
  fix s :: store and x :: category
  assume "\<forall>r \<in> set s. r \<in> B \<or> \<not> active r" and "\<not> active x"
  then show "\<forall>r \<in> set (fst (write_row s (base_prep tr x))). r \<in> B \<or> \<not> active r"
    using set_write_row [of s "base_prep tr x"] by auto
next
  fix s :: store and x item :: category
  assume "\<not> active x"
  then show "\<not> active (item\<lparr>active := active x\<rparr>)" by simp
next
  show "\<forall>r \<in> set s. r \<in> B \<or> \<not> active r" by (rule assms(2))
  show "\<not> active x" by (rule assms(1))
  show "fst (CategoryBase_save tr s x) = Inr s'" by (rule assms(3))
qed

text \<open>Saving an inactive node removes the active rows of its id from the table.\<close>

lemma CategoryBase_save_removes_active:
  assumes "\<not> active x" and "cid x \<noteq> None" and "active m" and "cid m = cid x"
    and "fst (CategoryBase_save tr s x) = Inr s'"
  shows "m \<notin> set s'"
proof (rule CategoryBase_save_invariant_top
    [where I = "\<lambda>s. m \<notin> set s" and Q = "\<lambda>x::category. \<not> active x"])
  fix s :: store and x :: category
  assume "m \<notin> set s" and "\<not> active x"
  then show "m \<notin> set (fst (write_row s (base_prep tr x)))"
    using set_write_row [of s "base_prep tr x"] assms(3) by auto
next
  fix s :: store and x item :: category
  assume "\<not> active x"
  then show "\<not> active (item\<lparr>active := active x\<rparr>)" by simp
next
  show "m \<notin> set (fst (write_row s (base_prep tr x)))"
  proof
    assume "m \<in> set (fst (write_row s (base_prep tr x)))"
    moreover have "cid m = cid (snd (write_row s (base_prep tr x)))"
      using assms(2,4) by (simp add: write_row_snd_cid)
    ultimately have "m = snd (write_row s (base_prep tr x))" by (rule write_row_unique)
    then show False using assms(1,3) by simp
  qed
next
  fix item :: category
  show "\<not> active (item\<lparr>active := active x\<rparr>)" using assms(1) by simp
next
  show "fst (CategoryBase_save tr s x) = Inr s'" by (rule assms(5))
qed

text \<open>The loop over the descendants of an inactive node leaves no item active.\<close>

lemma CategoryBase_cascade_deactivates:
  assumes "\<not> active self2" and "\<forall>item \<in> set items. cid item \<noteq> None"
    and "fold (CategoryBase_cascade_step tr self2) items (Inr s) = Inr s'"
  shows "\<forall>m \<in> set s'. active m \<longrightarrow> m \<in> set s \<and> m \<notin> set items"
  using assms(2,3)
proof (induction items arbitrary: s)
  case Nil
  then show ?case by simp
next
  case (Cons item items)
  let ?acc = "CategoryBase_cascade_step tr self2 item (Inr s)"
  from Cons.prems(2) have f: "fold (CategoryBase_cascade_step tr self2) items ?acc = Inr s'"
    by simp
  then obtain s1 where acc: "?acc = Inr s1"
    by (cases ?acc) simp_all
  have step: "\<forall>m \<in> set s1. active m \<longrightarrow> m \<in> set s \<and> m \<noteq> item"
  proof (cases "active item")
    case True
    let ?x = "item\<lparr>active := False\<rparr>"
    have s: "fst (CategoryBase_save tr s ?x) = Inr s1"
      using True assms(1) acc by (simp add: CategoryBase_cascade_step_def)
    have "\<forall>r \<in> set s1. r \<in> set s \<or> \<not> active r"
      using _ _ s by (rule CategoryBase_save_adds_inactive) simp_all
    moreover have "item \<notin> set s1"
      using _ _ True _ s by (rule CategoryBase_save_removes_active) (use Cons.prems in simp_all)
    ultimately show ?thesis by blast
  next
    case False
    then have "s1 = s" using assms(1) acc by (simp add: CategoryBase_cascade_step_def)
    then show ?thesis using False by auto
  qed
  have "\<forall>m \<in> set s'. active m \<longrightarrow> m \<in> set s1 \<and> m \<notin> set items"
    using Cons.prems(1) f unfolding acc by (intro Cons.IH) simp_all
  with step show ?case by auto
qed

lemma CategoryBase_save_deactivates:
  assumes "\<forall>r \<in> set st. cid r \<noteq> None" and "\<not> active n"
    and ret: "fst (CategoryBase_save tr st n) = Inr st'"
  shows "\<forall>m \<in> set (get_descendants st' (snd (CategoryBase_save tr st n))). \<not> active m"
proof
  fix m
  let ?w = "write_row st (base_prep tr n)"
  let ?items = "get_descendants (fst ?w) n"
  from ret have ok: "CategoryBase_Meta st (base_prep tr n)" by (rule CategoryBase_save_Inr)
  assume "m \<in> set (get_descendants st' (snd (CategoryBase_save tr st n)))"
  then have m: "m \<in> set st'" and e: "encloses n m"
    using ok by (simp_all add: CategoryBase_save_snd set_get_descendants)
  have final: "fold (CategoryBase_cascade_step tr (snd ?w)) ?items (Inr (fst ?w)) = Inr st'"
    using ret ok assms(2) by (simp add: CategoryBase_save_written)
  have ids: "\<forall>item \<in> set ?items. cid item \<noteq> None"
  proof
    fix item
    assume "item \<in> set ?items"
    then have "item \<in> insert (snd ?w) (set st)"
      using set_write_row [of st "base_prep tr n"] by (auto simp: set_get_descendants)
    then show "cid item \<noteq> None"
      using assms(1) write_row_snd_fields(7) [of st "base_prep tr n"] by blast
  qed
  have "\<not> active (snd ?w)" using assms(2) by simp
  then have "\<forall>m \<in> set st'. active m \<longrightarrow> m \<in> set (fst ?w) \<and> m \<notin> set ?items"
    using ids final by (rule CategoryBase_cascade_deactivates)
  with m e show "\<not> active m" by (auto simp: set_get_descendants)
qed

text \<open>The record that \<open>save\<close> wrote for the node is in the table when \<open>save\<close> returns.\<close>

lemma CategoryBase_save_stored:
  assumes ret: "fst (CategoryBase_save tr st n) = Inr st'"
  shows "snd (CategoryBase_save tr st n) \<in> set st'"
proof -
  let ?q = "snd (write_row st (base_prep tr n))"
  let ?I = "\<lambda>s. ?q \<in> set s \<and> (\<forall>r \<in> set s. cid r = cid ?q \<longrightarrow> r = ?q)"
  let ?Q = "\<lambda>x::category. cid x \<noteq> cid ?q \<and> encloses ?q x"
  from ret have ok: "CategoryBase_Meta st (base_prep tr n)" by (rule CategoryBase_save_Inr)
  have "?I st'"
  proof (rule CategoryBase_save_invariant_top [where I = ?I and Q = ?Q])
    fix s :: store and x :: category
    assume I: "?I s" and Q: "?Q x"
    let ?p = "write_row s (base_prep tr x)"
    have ne: "cid (snd ?p) \<noteq> cid ?q"
    proof (cases "cid x")
      case None
      then have "cid (snd ?p) = Some (next_id s)" by (simp add: write_row_snd)
      then show ?thesis using I next_id_fresh [of ?q s] by auto
    next
      case (Some i)
      then show ?thesis using Q by (simp add: write_row_snd_cid)
    qed
    have "?q \<in> set (fst ?p)"
      using I Q by (intro write_row_keeps) auto
    moreover have "\<forall>r \<in> set (fst ?p). cid r = cid ?q \<longrightarrow> r = ?q"
      using I ne set_write_row [of s "base_prep tr x"] by auto
    ultimately show "?I (fst ?p)" by simp
  next
    fix s :: store and x item :: category
    assume I: "?I s" and Q: "?Q x" and m: "item \<in> set s" and e: "encloses x item"
    from Q e have e': "encloses ?q item" by (blast intro: encloses_trans)
    then have "item \<noteq> ?q" using encloses_irrefl by auto
    then have "cid item \<noteq> cid ?q" using I m by auto
    then show "?Q (item\<lparr>active := active x\<rparr>)" using e' by simp
  next
    show "?I (fst (write_row st (base_prep tr n)))"
      using write_row_mem write_row_unique by blast
  next
    fix item :: category
    assume m: "item \<in> set (fst (write_row st (base_prep tr n)))" and e: "encloses n item"
    have "item \<noteq> ?q" using e encloses_irrefl [of n] by auto
    then have "cid item \<noteq> cid ?q" using m write_row_unique by blast
    then show "?Q (item\<lparr>active := active n\<rparr>)" using e by simp
  next
    show "fst (CategoryBase_save tr st n) = Inr st'" by (rule ret)
  qed
  then show ?thesis using ok by (simp add: CategoryBase_save_snd)
qed

text \<open>Every row of the table after \<open>save\<close> carries over the saved record or an earlier row.\<close>

lemma CategoryBase_save_carries_over:
  assumes ret: "fst (CategoryBase_save tr st n) = Inr st'"
  shows "\<forall>r' \<in> set st'. \<exists>r \<in> insert (snd (CategoryBase_save tr st n)) (set st). carries_over r r'"
proof -
  let ?q = "snd (write_row st (base_prep tr n))"
  let ?B = "insert ?q (set st)"
  let ?I = "\<lambda>s. \<forall>r' \<in> set s. \<exists>r \<in> ?B. carries_over r r'"
  let ?Q = "\<lambda>x::category. \<exists>r \<in> ?B. carries_over r x"
  from ret have ok: "CategoryBase_Meta st (base_prep tr n)" by (rule CategoryBase_save_Inr)
  have "?I st'"
  proof (rule CategoryBase_save_invariant_top [where I = ?I and Q = ?Q])
    fix s :: store and x :: category
    assume I: "?I s" and Q: "?Q x"
    from Q have "?Q (snd (write_row s (base_prep tr x)))"
      by (blast intro: carries_over_write_row carries_over_base_prep)
    then show "?I (fst (write_row s (base_prep tr x)))"
      using I set_write_row [of s "base_prep tr x"] by blast
  next
    fix s :: store and x item :: category
    assume "?I s" and "item \<in> set s"
    then show "?Q (item\<lparr>active := active x\<rparr>)"
      by (blast intro: carries_over_active)
  next
    show "?I (fst (write_row st (base_prep tr n)))"
      using set_write_row [of st "base_prep tr n"] by (blast intro: carries_over_refl)
  next
    fix item :: category
    assume "item \<in> set (fst (write_row st (base_prep tr n)))"
    then have "item \<in> ?B" using set_write_row [of st "base_prep tr n"] by blast
    then show "?Q (item\<lparr>active := active n\<rparr>)"
      by (blast intro: carries_over_active carries_over_refl)
  next
    show "fst (CategoryBase_save tr st n) = Inr st'" by (rule ret)
  qed
  then show ?thesis using ok by (simp only: CategoryBase_save_snd if_True)
qed

text \<open>
  Saving an active node with \<open>CategoryBase.save\<close> is the write alone: every row of
  another id stays as it is, and no row but the node's own is new.
\<close>

lemma CategoryBase_save_active_frame:
  assumes "active n" and ret: "fst (CategoryBase_save tr st n) = Inr st'"
  shows "st' = fst (write_row st (base_prep tr n))"
    and "r \<in> set st \<Longrightarrow> cid n = None \<or> cid r \<noteq> cid n \<Longrightarrow> r \<in> set st'"
    and "r \<in> set st' \<Longrightarrow> r = snd (CategoryBase_save tr st n) \<or> r \<in> set st"
proof -
  from ret have ok: "CategoryBase_Meta st (base_prep tr n)" by (rule CategoryBase_save_Inr)
  show a: "st' = fst (write_row st (base_prep tr n))"
    using assms ok by (simp add: CategoryBase_save_written)
  show "r \<in> set st \<Longrightarrow> cid n = None \<or> cid r \<noteq> cid n \<Longrightarrow> r \<in> set st'"
    unfolding a by (rule write_row_keeps) simp_all
  show "r \<in> set st' \<Longrightarrow> r = snd (CategoryBase_save tr st n) \<or> r \<in> set st"
    unfolding a using ok set_write_row [of st "base_prep tr n"]
    by (auto simp: CategoryBase_save_snd)
qed

section \<open>\<open>Category.save\<close> unfolded\<close>

lemma cat_prep_fields [simp]:
  "active (cat_prep x) = active x"
  "name (cat_prep x) = name x"
  "cid (cat_prep x) = cid x"
  "tree_id (cat_prep x) = tree_id x"
  "lft (cat_prep x) = lft x"
  "rght (cat_prep x) = rght x"
  by (simp_all add: cat_prep_def Let_def split_beta)

lemma cat_prep_slug:
  "slug (cat_prep x) = (if slug x = [] then take 50 (slugify (name x)) else slug x)"
  by (simp add: cat_prep_def Let_def split_beta)

lemma encloses_cat_prep [simp]:
  "encloses (cat_prep x) m = encloses x m"
  "encloses m (cat_prep x) = encloses m x"
  by (simp_all add: encloses_def)

lemma get_descendants_cat_prep [simp]:
  "get_descendants st (cat_prep x) = get_descendants st x"
  by (simp add: get_descendants_def cong: filter_cong)

lemma carries_over_cat_prep: "carries_over r x \<Longrightarrow> carries_over r (cat_prep x)"
  by (auto simp: carries_over_def cat_prep_slug)

lemma Category_save_eq:
  "Category_save st n =
     (case persist Category_Meta st (cat_prep n) of
        Inl e \<Rightarrow> (Inl e, cat_prep n)
      | Inr w \<Rightarrow>
          (fold (\<lambda>item acc.
                   case acc of
                     Inl e \<Rightarrow> Inl e
                   | Inr s \<Rightarrow>
                       if active item \<noteq> active (snd w)
                       then fst (Category_save s (item\<lparr>active := active (snd w)\<rparr>))
                       else Inr s)
             (get_descendants (fst w) (snd w)) (Inr (fst w)), snd w))"
  by (subst Category_save.simps) (simp only: cat_prep_def Let_def case_prod_unfold)

declare Category_save.simps [simp del]

lemma Category_save_step:
  "Category_save st n =
     (case persist Category_Meta st (cat_prep n) of
        Inl e \<Rightarrow> (Inl e, cat_prep n)
      | Inr w \<Rightarrow>
          (fold (Category_cascade_step (snd w))
             (get_descendants (fst w) (snd w)) (Inr (fst w)), snd w))"
  unfolding Category_cascade_step_def by (rule Category_save_eq)

lemma Category_save_refused:
  "\<not> Category_Meta st (cat_prep n) \<Longrightarrow> Category_save st n = (Inl StoreError, cat_prep n)"
  by (simp add: Category_save_step persist_def)

lemma Category_save_written:
  "Category_Meta st (cat_prep n) \<Longrightarrow>
     Category_save st n =
       (fold (Category_cascade_step (snd (write_row st (cat_prep n))))
          (get_descendants (fst (write_row st (cat_prep n))) n)
          (Inr (fst (write_row st (cat_prep n)))),
        snd (write_row st (cat_prep n)))"
  by (simp add: Category_save_step persist_def)

lemma Category_save_snd:
  "snd (Category_save st n) =
     (if Category_Meta st (cat_prep n) then snd (write_row st (cat_prep n)) else cat_prep n)"
  by (simp add: Category_save_refused Category_save_written)

lemma Category_save_Inr:
  "fst (Category_save st n) = Inr st' \<Longrightarrow> Category_Meta st (cat_prep n)"
  by (rule ccontr) (simp add: Category_save_refused)

lemma Category_cascade_step_Inl [simp]:
  "Category_cascade_step x item (Inl e) = Inl e"
  by (simp add: Category_cascade_step_def)

lemma Category_cascade_Inl [simp]:
  "fold (Category_cascade_step x) items (Inl e) = Inl e"
  by (induction items) simp_all

lemma Category_cascade_step_Inr:
  "Category_cascade_step (snd (write_row st x)) item (Inr s) =
     (if active item \<noteq> active x
      then fst (Category_save s (item\<lparr>active := active x\<rparr>)) else Inr s)"
  by (simp add: Category_cascade_step_def)

section \<open>Invariants of \<open>Category.save\<close>\<close>

lemma Category_save_invariant_aux:
  assumes "write": "\<And>s x. I s \<Longrightarrow> Q x \<Longrightarrow> I (fst (write_row s (cat_prep x)))"
    and item: "\<And>s x item. I s \<Longrightarrow> Q x \<Longrightarrow> item \<in> set s \<Longrightarrow> encloses x item
                 \<Longrightarrow> Q (item\<lparr>active := active x\<rparr>)"
  shows "I s \<Longrightarrow> Q x \<Longrightarrow> (\<forall>s'. fst (Category_save s x) = Inr s' \<longrightarrow> I s')"
proof (induction s x rule: Category_save.induct)
  case (1 st self0)
  let ?s1 = "if slug self0 = [] then self0\<lparr>slug := take 50 (slugify (name self0))\<rparr> else self0"
  let ?dims = "case thumbnail ?s1 of None \<Rightarrow> (None, None) | Some dims \<Rightarrow> dims"
  let ?w = "write_row st (cat_prep self0)"
  let ?P = "\<lambda>acc :: error + store. \<forall>s'. acc = Inr s' \<longrightarrow> I s'"
  from "1.prems" have Ist: "I st" and Q0: "Q self0" by simp_all
  have I1: "I (fst ?w)" using Ist Q0 by (rule "write")
  show ?case
  proof (cases "Category_Meta st (cat_prep self0)")
    case False
    then show ?thesis by (simp add: Category_save_refused)
  next
    case ok: True
    have "?P (fold (Category_cascade_step (snd ?w)) (get_descendants (fst ?w) self0)
               (Inr (fst ?w)))"
    proof (rule fold_invariant)
      show "?P (Inr (fst ?w))" using I1 by simp
    next
      fix item and acc :: "error + store"
      assume m: "item \<in> set (get_descendants (fst ?w) self0)" and Pacc: "?P acc"
      show "?P (Category_cascade_step (snd ?w) item acc)"
      proof (cases acc)
        case (Inl e)
        then show ?thesis by simp
      next
        case (Inr s)
        with Pacc have Is: "I s" by simp
        show ?thesis
        proof (cases "active item \<noteq> active self0")
          case neq: True
          from m have "item \<in> set (fst ?w)" and "encloses self0 item"
            by (simp_all add: set_get_descendants)
          with I1 Q0 have Qi: "Q (item\<lparr>active := active self0\<rparr>)" by (rule item)
          have "?P (fst (Category_save s (item\<lparr>active := active (snd ?w)\<rparr>)))"
          proof (rule "1.IH" [of ?s1 ?dims "fst ?dims" "snd ?dims" "cat_prep self0" ?w
                "fst ?w" "snd ?w" item s])
            show "?s1 = ?s1" by (rule refl)
            show "?dims = ?dims" by (rule refl)
            show "(fst ?dims, snd ?dims) = ?dims" by simp
            show "cat_prep self0 =
                    ?s1\<lparr>thumbnail_width := fst ?dims, thumbnail_height := snd ?dims\<rparr>"
              by (simp only: cat_prep_def Let_def split_beta)
            show "persist Category_Meta st (cat_prep self0) = Inr ?w"
              using ok by (simp add: persist_def)
            show "(fst ?w, snd ?w) = ?w" by simp
            show "item \<in> set (get_descendants (fst ?w) (snd ?w))" using m by simp
            show "active item \<noteq> active (snd ?w)" using neq by simp
            show "I s" by (rule Is)
            show "Q (item\<lparr>active := active (snd ?w)\<rparr>)" using Qi by simp
          qed
          then show ?thesis using neq Inr by (simp add: Category_cascade_step_Inr)
        next
          case False
          then show ?thesis using Is Inr by (simp add: Category_cascade_step_Inr)
        qed
      qed
    qed
    then show ?thesis using ok by (simp add: Category_save_written)
  qed
qed

lemma Category_save_invariant:
  assumes "\<And>s x. I s \<Longrightarrow> Q x \<Longrightarrow> I (fst (write_row s (cat_prep x)))"
    and "\<And>s x item. I s \<Longrightarrow> Q x \<Longrightarrow> item \<in> set s \<Longrightarrow> encloses x item
                 \<Longrightarrow> Q (item\<lparr>active := active x\<rparr>)"
    and "I s" and "Q x" and "fst (Category_save s x) = Inr s'"
  shows "I s'"
  using Category_save_invariant_aux [of I Q s x] assms by blast

text \<open>The same for the outermost call, whose own write may establish the invariant.\<close>

lemma Category_save_invariant_top:
  assumes "write": "\<And>s x. I s \<Longrightarrow> Q x \<Longrightarrow> I (fst (write_row s (cat_prep x)))"
    and item: "\<And>s x item. I s \<Longrightarrow> Q x \<Longrightarrow> item \<in> set s \<Longrightarrow> encloses x item
                 \<Longrightarrow> Q (item\<lparr>active := active x\<rparr>)"
    and first: "I (fst (write_row st (cat_prep n)))"
    and items: "\<And>item. item \<in> set (fst (write_row st (cat_prep n))) \<Longrightarrow> encloses n item
                 \<Longrightarrow> Q (item\<lparr>active := active n\<rparr>)"
    and ret: "fst (Category_save st n) = Inr st'"
  shows "I st'"
proof -
  let ?w = "write_row st (cat_prep n)"
  let ?P = "\<lambda>acc :: error + store. \<forall>s'. acc = Inr s' \<longrightarrow> I s'"
  from ret have ok: "Category_Meta st (cat_prep n)" by (rule Category_save_Inr)
  have "?P (fold (Category_cascade_step (snd ?w)) (get_descendants (fst ?w) n)
             (Inr (fst ?w)))"
  proof (rule fold_invariant)
    show "?P (Inr (fst ?w))" using first by simp
  next
    fix item and acc :: "error + store"
    assume m: "item \<in> set (get_descendants (fst ?w) n)" and Pacc: "?P acc"
    from m have "item \<in> set (fst ?w)" and "encloses n item"
      by (simp_all add: set_get_descendants)
    then have Qi: "Q (item\<lparr>active := active n\<rparr>)" by (rule items)
    show "?P (Category_cascade_step (snd ?w) item acc)"
    proof (cases acc)
      case (Inl e)
      then show ?thesis by simp
    next
      case (Inr s)
      with Pacc have Is: "I s" by simp
      have "\<forall>s'. fst (Category_save s (item\<lparr>active := active n\<rparr>)) = Inr s' \<longrightarrow> I s'"
        using "write" item Is Qi by (blast intro: Category_save_invariant [of I Q])
      then show ?thesis using Is Inr by (simp add: Category_cascade_step_Inr)
    qed
  qed
  then show ?thesis using first ok ret by (simp add: Category_save_written split: if_splits)
qed

text \<open>Saving an inactive node adds only inactive rows.\<close>

lemma Category_save_adds_inactive:
  assumes "\<not> active x" and "\<forall>r \<in> set s. r \<in> B \<or> \<not> active r"
    and "fst (Category_save s x) = Inr s'"
  shows "\<forall>r \<in> set s'. r \<in> B \<or> \<not> active r"
proof (rule Category_save_invariant
    [where I = "\<lambda>s. \<forall>r \<in> set s. r \<in> B \<or> \<not> active r" and Q = "\<lambda>x::category. \<not> active x"])
  fix s :: store and x :: category
  assume "\<forall>r \<in> set s. r \<in> B \<or> \<not> active r" and "\<not> active x"
  then show "\<forall>r \<in> set (fst (write_row s (cat_prep x))). r \<in> B \<or> \<not> active r"
    using set_write_row [of s "cat_prep x"] by auto
next
  fix s :: store and x item :: category
  assume "\<not> active x"
  then show "\<not> active (item\<lparr>active := active x\<rparr>)" by simp
next
  show "\<forall>r \<in> set s. r \<in> B \<or> \<not> active r" by (rule assms(2))
  show "\<not> active x" by (rule assms(1))
  show "fst (Category_save s x) = Inr s'" by (rule assms(3))
qed

text \<open>Saving an inactive node removes the active rows of its id from the table.\<close>

lemma Category_save_removes_active:
  assumes "\<not> active x" and "cid x \<noteq> None" and "active m" and "cid m = cid x"
    and "fst (Category_save s x) = Inr s'"
  shows "m \<notin> set s'"
proof (rule Category_save_invariant_top
    [where I = "\<lambda>s. m \<notin> set s" and Q = "\<lambda>x::category. \<not> active x"])
  fix s :: store and x :: category
  assume "m \<notin> set s" and "\<not> active x"
  then show "m \<notin> set (fst (write_row s (cat_prep x)))"
    using set_write_row [of s "cat_prep x"] assms(3) by auto
next
  fix s :: store and x item :: category
  assume "\<not> active x"
  then show "\<not> active (item\<lparr>active := active x\<rparr>)" by simp
next
  show "m \<notin> set (fst (write_row s (cat_prep x)))"
  proof
    assume "m \<in> set (fst (write_row s (cat_prep x)))"
    moreover have "cid m = cid (snd (write_row s (cat_prep x)))"
      using assms(2,4) by (simp add: write_row_snd_cid)
    ultimately have "m = snd (write_row s (cat_prep x))" by (rule write_row_unique)
    then show False using assms(1,3) by simp
  qed
next
  fix item :: category
  show "\<not> active (item\<lparr>active := active x\<rparr>)" using assms(1) by simp
next
  show "fst (Category_save s x) = Inr s'" by (rule assms(5))
qed

text \<open>The loop over the descendants of an inactive node leaves no item active.\<close>

lemma Category_cascade_deactivates:
  assumes "\<not> active self2" and "\<forall>item \<in> set items. cid item \<noteq> None"
    and "fold (Category_cascade_step self2) items (Inr s) = Inr s'"
  shows "\<forall>m \<in> set s'. active m \<longrightarrow> m \<in> set s \<and> m \<notin> set items"
  using assms(2,3)
proof (induction items arbitrary: s)
  case Nil
  then show ?case by simp
next
  case (Cons item items)
  let ?acc = "Category_cascade_step self2 item (Inr s)"
  from Cons.prems(2) have f: "fold (Category_cascade_step self2) items ?acc = Inr s'"
    by simp
  then obtain s1 where acc: "?acc = Inr s1"
    by (cases ?acc) simp_all
  have step: "\<forall>m \<in> set s1. active m \<longrightarrow> m \<in> set s \<and> m \<noteq> item"
  proof (cases "active item")
    case True
    let ?x = "item\<lparr>active := False\<rparr>"
    have s: "fst (Category_save s ?x) = Inr s1"
      using True assms(1) acc by (simp add: Category_cascade_step_def)
    have "\<forall>r \<in> set s1. r \<in> set s \<or> \<not> active r"
      using _ _ s by (rule Category_save_adds_inactive) simp_all
    moreover have "item \<notin> set s1"
      using _ _ True _ s by (rule Category_save_removes_active) (use Cons.prems in simp_all)
    ultimately show ?thesis by blast
  next
    case False
    then have "s1 = s" using assms(1) acc by (simp add: Category_cascade_step_def)
    then show ?thesis using False by auto
  qed
  have "\<forall>m \<in> set s'. active m \<longrightarrow> m \<in> set s1 \<and> m \<notin> set items"
    using Cons.prems(1) f unfolding acc by (intro Cons.IH) simp_all
  with step show ?case by auto
qed

lemma Category_save_deactivates:
  assumes "\<forall>r \<in> set st. cid r \<noteq> None" and "\<not> active n"
    and ret: "fst (Category_save st n) = Inr st'"
  shows "\<forall>m \<in> set (get_descendants st' (snd (Category_save st n))). \<not> active m"
proof
  fix m
  let ?w = "write_row st (cat_prep n)"
  let ?items = "get_descendants (fst ?w) n"
  from ret have ok: "Category_Meta st (cat_prep n)" by (rule Category_save_Inr)
  assume "m \<in> set (get_descendants st' (snd (Category_save st n)))"
  then have m: "m \<in> set st'" and e: "encloses n m"
    using ok by (simp_all add: Category_save_snd set_get_descendants)
  have final: "fold (Category_cascade_step (snd ?w)) ?items (Inr (fst ?w)) = Inr st'"
    using ret ok assms(2) by (simp add: Category_save_written)
  have ids: "\<forall>item \<in> set ?items. cid item \<noteq> None"
  proof
    fix item
    assume "item \<in> set ?items"
    then have "item \<in> insert (snd ?w) (set st)"
      using set_write_row [of st "cat_prep n"] by (auto simp: set_get_descendants)
    then show "cid item \<noteq> None"
      using assms(1) write_row_snd_fields(7) [of st "cat_prep n"] by blast
  qed
  have "\<not> active (snd ?w)" using assms(2) by simp
  then have "\<forall>m \<in> set st'. active m \<longrightarrow> m \<in> set (fst ?w) \<and> m \<notin> set ?items"
    using ids final by (rule Category_cascade_deactivates)
  with m e show "\<not> active m" by (auto simp: set_get_descendants)
qed

text \<open>The record that \<open>save\<close> wrote for the node is in the table when \<open>save\<close> returns.\<close>

lemma Category_save_stored:
  assumes ret: "fst (Category_save st n) = Inr st'"
  shows "snd (Category_save st n) \<in> set st'"
proof -
  let ?q = "snd (write_row st (cat_prep n))"
  let ?I = "\<lambda>s. ?q \<in> set s \<and> (\<forall>r \<in> set s. cid r = cid ?q \<longrightarrow> r = ?q)"
  let ?Q = "\<lambda>x::category. cid x \<noteq> cid ?q \<and> encloses ?q x"
  from ret have ok: "Category_Meta st (cat_prep n)" by (rule Category_save_Inr)
  have "?I st'"
  proof (rule Category_save_invariant_top [where I = ?I and Q = ?Q])
    fix s :: store and x :: category
    assume I: "?I s" and Q: "?Q x"
    let ?p = "write_row s (cat_prep x)"
    have ne: "cid (snd ?p) \<noteq> cid ?q"
    proof (cases "cid x")
      case None
      then have "cid (snd ?p) = Some (next_id s)" by (simp add: write_row_snd)
      then show ?thesis using I next_id_fresh [of ?q s] by auto
    next
      case (Some i)
      then show ?thesis using Q by (simp add: write_row_snd_cid)
    qed
    have "?q \<in> set (fst ?p)"
      using I Q by (intro write_row_keeps) auto
    moreover have "\<forall>r \<in> set (fst ?p). cid r = cid ?q \<longrightarrow> r = ?q"
      using I ne set_write_row [of s "cat_prep x"] by auto
    ultimately show "?I (fst ?p)" by simp
  next
    fix s :: store and x item :: category
    assume I: "?I s" and Q: "?Q x" and m: "item \<in> set s" and e: "encloses x item"
    from Q e have e': "encloses ?q item" by (blast intro: encloses_trans)
    then have "item \<noteq> ?q" using encloses_irrefl by auto
    then have "cid item \<noteq> cid ?q" using I m by auto
    then show "?Q (item\<lparr>active := active x\<rparr>)" using e' by simp
  next
    show "?I (fst (write_row st (cat_prep n)))"
      using write_row_mem write_row_unique by blast
  next
    fix item :: category
    assume m: "item \<in> set (fst (write_row st (cat_prep n)))" and e: "encloses n item"
    have "item \<noteq> ?q" using e encloses_irrefl [of n] by auto
    then have "cid item \<noteq> cid ?q" using m write_row_unique by blast
    then show "?Q (item\<lparr>active := active n\<rparr>)" using e by simp
  next
    show "fst (Category_save st n) = Inr st'" by (rule ret)
  qed
  then show ?thesis using ok by (simp add: Category_save_snd)
qed

text \<open>Every row of the table after \<open>save\<close> carries over the saved record or an earlier row.\<close>

lemma Category_save_carries_over:
  assumes ret: "fst (Category_save st n) = Inr st'"
  shows "\<forall>r' \<in> set st'. \<exists>r \<in> insert (snd (Category_save st n)) (set st). carries_over r r'"
proof -
  let ?q = "snd (write_row st (cat_prep n))"
  let ?B = "insert ?q (set st)"
  let ?I = "\<lambda>s. \<forall>r' \<in> set s. \<exists>r \<in> ?B. carries_over r r'"
  let ?Q = "\<lambda>x::category. \<exists>r \<in> ?B. carries_over r x"
  from ret have ok: "Category_Meta st (cat_prep n)" by (rule Category_save_Inr)
  have "?I st'"
  proof (rule Category_save_invariant_top [where I = ?I and Q = ?Q])
    fix s :: store and x :: category
    assume I: "?I s" and Q: "?Q x"
    from Q have "?Q (snd (write_row s (cat_prep x)))"
      by (blast intro: carries_over_write_row carries_over_cat_prep)
    then show "?I (fst (write_row s (cat_prep x)))"
      using I set_write_row [of s "cat_prep x"] by blast
  next
    fix s :: store and x item :: category
    assume "?I s" and "item \<in> set s"
    then show "?Q (item\<lparr>active := active x\<rparr>)"
      by (blast intro: carries_over_active)
  next
    show "?I (fst (write_row st (cat_prep n)))"
      using set_write_row [of st "cat_prep n"] by (blast intro: carries_over_refl)
  next
    fix item :: category
    assume "item \<in> set (fst (write_row st (cat_prep n)))"
    then have "item \<in> ?B" using set_write_row [of st "cat_prep n"] by blast
    then show "?Q (item\<lparr>active := active n\<rparr>)"
      by (blast intro: carries_over_active carries_over_refl)
  next
    show "fst (Category_save st n) = Inr st'" by (rule ret)
  qed
  then show ?thesis using ok by (simp only: Category_save_snd if_True)
qed

section \<open>Properties\<close>

subsection \<open>Activation and the cascade\<close>

text \<open>
  C1. Saving a node whose flag is set should leave every descendant as it is. It does for
  \<open>CategoryBase.save\<close>, whose loop is guarded by \<open>not self.active\<close>. \<open>Category.save\<close> runs
  the loop without the guard: saving the active root of a chain of inactive nodes sets the
  flag of both descendants.
\<close>

theorem C1_Category_save_activates_descendants:
  "map_sum id (map active)
     (fst (Category_save (example_tree False False False) (news_row True)))
     = Inr [True, True, True]
   \<and> map_sum id (map active)
     (fst (CategoryBase_save id (example_tree False False False) (news_row True)))
     = Inr [True, False, False]"
  by code_simp



subsection \<open>Slugs on save\<close>

text \<open>
  C6. When the slug of the node is empty, \<open>save\<close> gives the node the URL-safe form of its
  name cut to 50 characters (for \<open>CategoryBase\<close>, of the transliterated name) before it
  writes: the instance has that slug whether or not the store accepts the write, and
  whenever \<open>save\<close> returns, the record with that slug is in the table. A fresh node named
  Hello World gets the slug hello-world.
\<close>

theorem C6_save_assigns_slug:
  assumes "slug n = []"
  shows "slug (snd (CategoryBase_save tr st n)) = take 50 (slugify (tr (name n)))
       \<and> (\<forall>st'. fst (CategoryBase_save tr st n) = Inr st' \<longrightarrow>
             snd (CategoryBase_save tr st n) \<in> set st')
       \<and> slug (snd (Category_save st n)) = take 50 (slugify (name n))
       \<and> (\<forall>st'. fst (Category_save st n) = Inr st' \<longrightarrow>
             snd (Category_save st n) \<in> set st')"
proof -
  have "slug (snd (CategoryBase_save tr st n)) = take 50 (slugify (tr (name n)))"
    using assms by (simp add: CategoryBase_save_snd base_prep_def)
  moreover have "slug (snd (Category_save st n)) = take 50 (slugify (name n))"
    using assms by (simp add: Category_save_snd cat_prep_slug)
  ultimately show ?thesis
    using CategoryBase_save_stored [of tr st n] Category_save_stored [of st n] by blast
qed

theorem C6_save_assigns_slug_witness:
  "slug (snd (CategoryBase_save (\<lambda>x. x) (example_tree True True True)
                (fresh_node ''Hello World''))) = ''hello-world''
   \<and> fst (CategoryBase_save (\<lambda>x. x) (example_tree True True True)
            (fresh_node ''Hello World''))
       = Inr (example_tree True True True
               @ [(fresh_node ''Hello World'')\<lparr>cid := Some 4, slug := ''hello-world''\<rparr>])
   \<and> snd (CategoryBase_save (\<lambda>x. x) (example_tree True True True)
            (fresh_node ''Hello World''))
       \<in> set (example_tree True True True
               @ [(fresh_node ''Hello World'')\<lparr>cid := Some 4, slug := ''hello-world''\<rparr>])
   \<and> slug (snd (Category_save (example_tree True True True)
                ((fresh_node ''Hello World'')\<lparr>unicode_name := Some []\<rparr>))) = ''hello-world''
   \<and> fst (Category_save (example_tree True True True)
            ((fresh_node ''Hello World'')\<lparr>unicode_name := Some []\<rparr>))
       = Inr (example_tree True True True
               @ [(fresh_node ''Hello World'')
                    \<lparr>cid := Some 4, slug := ''hello-world'', unicode_name := Some []\<rparr>])
   \<and> snd (Category_save (example_tree True True True)
            ((fresh_node ''Hello World'')\<lparr>unicode_name := Some []\<rparr>))
       \<in> set (example_tree True True True
               @ [(fresh_node ''Hello World'')
                    \<lparr>cid := Some 4, slug := ''hello-world'', unicode_name := Some []\<rparr>])
   \<and> fst (Category_save (example_tree True True True) (fresh_node ''Hello World''))
       = Inl StoreError
   \<and> slug (snd (Category_save (example_tree True True True) (fresh_node ''Hello World'')))
       = ''hello-world''"
proof -
  let ?st = "example_tree True True True"
  let ?n = "fresh_node ''Hello World''"
  let ?m = "?n\<lparr>unicode_name := Some []\<rparr>"
  have h: "slug ?n = []" and h': "slug ?m = []" by (simp_all add: example_defs)
  have nm: "name ?n = ''Hello World''" "name ?m = ''Hello World''"
    by (simp_all add: example_defs)
  have sl: "take 50 (slugify ''Hello World'') = ''hello-world''" by code_simp
  have r1: "fst (CategoryBase_save (\<lambda>x. x) ?st ?n)
              = Inr (?st @ [?n\<lparr>cid := Some 4, slug := ''hello-world''\<rparr>])"
    by code_simp
  have r2: "fst (Category_save ?st ?m)
              = Inr (?st @ [?n\<lparr>cid := Some 4, slug := ''hello-world'', unicode_name := Some []\<rparr>])"
    by code_simp
  have r3: "fst (Category_save ?st ?n) = Inl StoreError" by code_simp
  from C6_save_assigns_slug [OF h, of "\<lambda>x. x" ?st] r1
  have a: "slug (snd (CategoryBase_save (\<lambda>x. x) ?st ?n)) = take 50 (slugify (name ?n))"
    and b: "snd (CategoryBase_save (\<lambda>x. x) ?st ?n)
              \<in> set (?st @ [?n\<lparr>cid := Some 4, slug := ''hello-world''\<rparr>])"
    and c: "slug (snd (Category_save ?st ?n)) = take 50 (slugify (name ?n))"
    by blast+
  from C6_save_assigns_slug [OF h', of "\<lambda>x. x" ?st] r2
  have d: "slug (snd (Category_save ?st ?m)) = take 50 (slugify (name ?m))"
    and e: "snd (Category_save ?st ?m)
              \<in> set (?st @ [?n\<lparr>cid := Some 4, slug := ''hello-world'', unicode_name := Some []\<rparr>])"
    by blast+
  from a c d have "slug (snd (CategoryBase_save (\<lambda>x. x) ?st ?n)) = ''hello-world''"
    and "slug (snd (Category_save ?st ?n)) = ''hello-world''"
    and "slug (snd (Category_save ?st ?m)) = ''hello-world''"
    by (simp_all only: nm sl)
  then show ?thesis using b e r1 r2 r3 by blast
qed

text \<open>
  C10. When the slug of the node is not empty, \<open>save\<close> leaves it as it is; and every row
  of the table after a save that returns, the rows written by the cascade included, carries
  over the saved record or a row of the table before the save with its slug, unless that
  was empty.
\<close>

theorem C10_save_keeps_slug:
  assumes "slug n \<noteq> []"
  shows "slug (snd (CategoryBase_save tr st n)) = slug n
       \<and> (\<forall>st'. fst (CategoryBase_save tr st n) = Inr st' \<longrightarrow>
             (\<forall>r' \<in> set st'.
                \<exists>r \<in> insert (snd (CategoryBase_save tr st n)) (set st). carries_over r r'))
       \<and> slug (snd (Category_save st n)) = slug n
       \<and> (\<forall>st'. fst (Category_save st n) = Inr st' \<longrightarrow>
             (\<forall>r' \<in> set st'.
                \<exists>r \<in> insert (snd (Category_save st n)) (set st). carries_over r r'))"
proof -
  have "slug (snd (CategoryBase_save tr st n)) = slug n"
    using assms by (simp add: CategoryBase_save_snd base_prep_def)
  moreover have "slug (snd (Category_save st n)) = slug n"
    using assms by (simp add: Category_save_snd cat_prep_slug)
  ultimately show ?thesis
    using CategoryBase_save_carries_over [of tr st n] Category_save_carries_over [of st n]
    by blast
qed

theorem C10_save_keeps_slug_witness:
  "slug (snd (Category_save (example_tree True True True)
                ((news_row False)\<lparr>name := ''World''\<rparr>))) = ''news''
   \<and> slug (snd (CategoryBase_save id (example_tree True True True)
                ((news_row False)\<lparr>name := ''World''\<rparr>))) = ''news''
   \<and> map_sum id (map slug) (fst (Category_save (example_tree True True True)
                ((news_row False)\<lparr>name := ''World''\<rparr>)))
        = Inr [''news'', ''politics'', ''senate'']
   \<and> map_sum id (map slug) (fst (CategoryBase_save id (example_tree True True True)
                ((news_row False)\<lparr>name := ''World''\<rparr>)))
        = Inr [''news'', ''politics'', ''senate'']"
proof -
  let ?st = "example_tree True True True"
  let ?n = "(news_row False)\<lparr>name := ''World''\<rparr>"
  have h: "slug ?n \<noteq> []" by (simp add: example_defs)
  have sl: "slug ?n = ''news''" by (simp add: example_defs)
  have t1: "map_sum id (map slug) (fst (Category_save ?st ?n))
              = Inr [''news'', ''politics'', ''senate'']"
    by code_simp
  have t2: "map_sum id (map slug) (fst (CategoryBase_save id ?st ?n))
              = Inr [''news'', ''politics'', ''senate'']"
    by code_simp
  from C10_save_keeps_slug [OF h, of id ?st]
  have "slug (snd (CategoryBase_save id ?st ?n)) = slug ?n"
    and "slug (snd (Category_save ?st ?n)) = slug ?n"
    by blast+
  then have "slug (snd (CategoryBase_save id ?st ?n)) = ''news''"
    and "slug (snd (Category_save ?st ?n)) = ''news''"
    by (simp_all only: sl)
  then show ?thesis using t1 t2 by blast
qed

subsection \<open>Display names and paths\<close>

text \<open>
  Without an override, \<open>Category\<close> leaves out the first ancestor unless it has one of the
  two kept slugs, while \<open>CategoryBase\<close> names every ancestor.
\<close>

lemma Category_unicode_drops_first:
  assumes "unicode_name n = None \<or> unicode_name n = Some []"
    and "get_ancestors st n False = a # as"
  shows "Category_unicode st n =
           join '' > '' (map name (if slug a = ''magazine'' \<or> slug a = ''nextgov-categories''
                                   then a # as else as) @ [name n])"
  using assms by (auto simp: Category_unicode_def Category_generate_unicode_name_def Let_def)

lemma CategoryBase_unicode_keeps_all:
  assumes "unicode_name n = None \<or> unicode_name n = Some []"
  shows "CategoryBase_unicode st n =
           join '' > '' (map name (get_ancestors st n False) @ [name n])"
  using assms by (auto simp: CategoryBase_unicode_def CategoryBase_generate_unicode_name_def Let_def)

text \<open>
  C3. Without an override the display name should leave out the first ancestor unless its
  slug is one of the two kept slugs. \<open>Category\<close> does that; \<open>CategoryBase\<close> joins the names
  of the query result, not of the shortened list, so the first ancestor News (slug news)
  stays in the name.
\<close>

theorem C3_CategoryBase_keeps_first_ancestor:
  "CategoryBase_unicode (example_tree True True True)
       (senate_row True) = ''News > Politics > Senate''
   \<and> Category_unicode (example_tree True True True)
       (senate_row True) = ''Politics > Senate''"
  by code_simp

text \<open>
  C4. Element \<open>i\<close> of \<open>all_categories\<close> should be the first \<open>i + 1\<close> names joined by the
  delimiter. The loop joins all the paths built so far with the next name, so on a chain
  of three the third element is not News::Politics::Senate.
\<close>

theorem C4_all_categories_third_level:
  "CategoryBase_all_categories (example_tree True True True) Map.empty
       (senate_row True) ''::''
     = Inr ([''News'', ''News::Politics'', ''News::News::Politics::Senate''],
            [''_CategoryBase__all_categories'' \<mapsto>
               [''News'', ''News::Politics'', ''News::News::Politics::Senate'']])"
  by (simp add: CategoryBase_all_categories_def all_categories_loop_def get_ancestors_def Let_def
      example_defs encloses_def same_node_def)

text \<open>
  C5. The URL of a node is its alternate URL when that is not empty; otherwise the base
  path, the slugs of the ancestors and the node without the first of them, joined by a
  slash, and a closing slash.
\<close>

theorem C5_get_absolute_url:
  "(alternate_url n \<noteq> [] \<longrightarrow> Category_get_absolute_url prefix st n = alternate_url n)
   \<and> (alternate_url n = [] \<longrightarrow>
        Category_get_absolute_url prefix st n =
          prefix @ join ''/'' (map slug (tl (get_ancestors st n False @ [n]))) @ ''/'')"
  by (simp add: Category_get_absolute_url_def Let_def)

theorem C5_get_absolute_url_witness:
  "Category_get_absolute_url ''/categories/'' (example_tree True True True)
       (senate_row True) = ''/categories/politics/senate/''
   \<and> Category_get_absolute_url ''/categories/'' (example_tree True True True)
       ((senate_row True)\<lparr>alternate_url := ''http://x.org/s''\<rparr>)
         = ''http://x.org/s''"
proof -
  let ?n = "senate_row True"
  let ?m = "?n\<lparr>alternate_url := ''http://x.org/s''\<rparr>"
  have a: "alternate_url ?n = []" by (simp add: example_defs)
  have b: "alternate_url ?m \<noteq> []" by simp
  have c: "join ''/'' (map slug (tl (get_ancestors (example_tree True True True) ?n False @ [?n]))) = ''politics/senate''"
    by code_simp
  from C5_get_absolute_url [of ?n "''/categories/''" "example_tree True True True"] a c
  have "Category_get_absolute_url ''/categories/'' (example_tree True True True) ?n = ''/categories/politics/senate/''"
    by simp
  moreover from C5_get_absolute_url [of ?m "''/categories/''" "example_tree True True True"] b
  have "Category_get_absolute_url ''/categories/'' (example_tree True True True) ?m = ''http://x.org/s''"
    by simp
  ultimately show ?thesis by simp
qed

subsection \<open>Admin form validation\<close>

text \<open>
  C7. The parent check succeeds when the candidate parent is null or the instance has no
  id; otherwise it fails with \<open>SelfParent\<close> exactly when the parent's id is the instance's
  id, and with \<open>CyclicParent\<close> exactly when the parent's id is among the ids of the
  instance's descendants (and is not the instance's own id, which the check tests first;
  where the instance's id is not among its descendants' ids this proviso is empty).
  Every other parent is accepted.
\<close>

theorem C7_validate_parent:
  "(validate_parent st inst p = Inl SelfParent \<longleftrightarrow>
      (\<exists>q. p = Some q \<and> cid inst \<noteq> None \<and> cid q = cid inst))
   \<and> (validate_parent st inst p = Inl CyclicParent \<longleftrightarrow>
      (\<exists>q. p = Some q \<and> cid inst \<noteq> None \<and> cid q \<noteq> cid inst
           \<and> cid q \<in> set (map cid (get_descendants st inst))))
   \<and> (cid inst \<notin> set (map cid (get_descendants st inst)) \<longrightarrow>
        (validate_parent st inst p = Inl CyclicParent \<longleftrightarrow>
           (\<exists>q. p = Some q \<and> cid inst \<noteq> None
                \<and> cid q \<in> set (map cid (get_descendants st inst)))))
   \<and> (p = None \<or> cid inst = None \<longrightarrow> validate_parent st inst p = Inr ())
   \<and> (\<forall>q. p = Some q \<and> cid q \<noteq> cid inst
            \<and> cid q \<notin> set (map cid (get_descendants st inst))
          \<longrightarrow> validate_parent st inst p = Inr ())
   \<and> validate_parent st inst p \<noteq> Inl DuplicateSlug
   \<and> validate_parent st inst p \<noteq> Inl AttributeError"
proof (cases p)
  case None
  then show ?thesis by (simp add: validate_parent_def)
next
  case (Some q)
  define D where "D = set (map cid (get_descendants st inst))"
  have v: "validate_parent st inst p =
             (if cid inst = None then Inr ()
              else if cid q = cid inst then Inl SelfParent
              else if cid q \<in> D then Inl CyclicParent else Inr ())"
    by (simp add: validate_parent_def Some D_def)
  show ?thesis
    unfolding D_def [symmetric] v using Some by (cases "cid inst = None"; cases "cid q = cid inst"; cases "cid q \<in> D"; simp)
qed

theorem C7_validate_parent_witness:
  "validate_parent (example_tree True True True) (politics_row True)
     (Some (senate_row True)) = Inl CyclicParent
   \<and> validate_parent (example_tree True True True) (politics_row True)
     (Some (politics_row True)) = Inl SelfParent
   \<and> validate_parent (example_tree True True True) (politics_row True)
     (Some (news_row True)) = Inr ()
   \<and> validate_parent (example_tree True True True) (politics_row True)
     None = Inr ()"
proof -
  let ?st = "example_tree True True True"
  let ?b = "politics_row True"
  let ?c = "senate_row True"
  let ?a = "news_row True"
  have d: "map cid (get_descendants ?st ?b) = [Some 3]" by code_simp
  have i: "cid ?a = Some 1" "cid ?b = Some 2" "cid ?c = Some 3"
    by (simp_all add: example_defs)
  from C7_validate_parent [of ?st ?b "Some ?c"] d i
  have "validate_parent ?st ?b (Some ?c) = Inl CyclicParent" by simp
  moreover from C7_validate_parent [of ?st ?b "Some ?b"] d i
  have "validate_parent ?st ?b (Some ?b) = Inl SelfParent" by simp
  moreover from C7_validate_parent [of ?st ?b "Some ?a"] d i
  have "validate_parent ?st ?b (Some ?a) = Inr ()" by simp
  moreover from C7_validate_parent [of ?st ?b None]
  have "validate_parent ?st ?b None = Inr ()" by simp
  ultimately show ?thesis by simp
qed

text \<open>The slug check, by the candidate parent.\<close>

lemma validate_slug_None: "validate_slug st inst None candidate = Inr ()"
  by (simp add: validate_slug_def)

lemma mem_tree_slugs:
  "candidate \<in> set (map slug (filter (\<lambda>c. cid c \<noteq> i) (filter (\<lambda>c. tree_id c = t) st)))
     \<longleftrightarrow> (\<exists>c \<in> set st. tree_id c = t \<and> cid c \<noteq> i \<and> slug c = candidate)"
  by auto

lemma validate_slug_Some:
  "validate_slug st inst (Some q) candidate =
     (if \<exists>c \<in> set st. tree_id c = tree_id q \<and> cid c \<noteq> cid inst \<and> slug c = candidate
      then Inl DuplicateSlug else Inr ())"
  unfolding validate_slug_def Let_def option.case mem_tree_slugs ..

lemma validate_parent_not_DuplicateSlug: "validate_parent st inst p \<noteq> Inl DuplicateSlug"
  by (cases p) (simp_all add: validate_parent_def Let_def)

text \<open>
  C8. The slug check fails with \<open>DuplicateSlug\<close> exactly when the candidate parent is
  not null and a row of the parent's tree with another id has the candidate slug; with a
  null parent it is skipped and succeeds. The whole method reports \<open>DuplicateSlug\<close>
  exactly when the form is valid and the slug check fails.
\<close>

theorem C8_validate_slug:
  "(validate_slug st inst p candidate = Inl DuplicateSlug \<longleftrightarrow>
      (\<exists>q. p = Some q \<and>
           (\<exists>c \<in> set st. tree_id c = tree_id q \<and> cid c \<noteq> cid inst \<and> slug c = candidate)))
   \<and> (p = None \<longrightarrow> validate_slug st inst p candidate = Inr ())
   \<and> (validate_slug st inst p candidate \<noteq> Inl DuplicateSlug \<longrightarrow>
        validate_slug st inst p candidate = Inr ())
   \<and> (clean is_valid st inst p candidate = Inl DuplicateSlug \<longleftrightarrow>
        is_valid \<and> validate_slug st inst p candidate = Inl DuplicateSlug)"
proof -
  have d: "clean is_valid st inst p candidate = Inl DuplicateSlug \<longleftrightarrow>
        is_valid \<and> validate_slug st inst p candidate = Inl DuplicateSlug"
  proof (cases "validate_slug st inst p candidate")
    case (Inl e)
    then show ?thesis by (simp add: clean_def)
  next
    case (Inr u)
    then show ?thesis by (simp add: clean_def validate_parent_not_DuplicateSlug)
  qed
  show ?thesis
  proof (cases p)
    case None
    then show ?thesis using d by (simp add: validate_slug_None)
  next
    case (Some q)
    then show ?thesis using d by (simp add: validate_slug_Some)
  qed
qed

theorem C8_validate_slug_witness:
  "validate_slug (example_tree True True True)
     (senate_row True)
     (Some (politics_row True)) ''news'' = Inl DuplicateSlug
   \<and> validate_slug (example_tree True True True)
     (senate_row True)
     (Some (politics_row True)) ''senate'' = Inr ()
   \<and> validate_slug (example_tree True True True)
     (senate_row True) None ''news'' = Inr ()"
proof -
  let ?st = "example_tree True True True"
  let ?b = "politics_row True"
  let ?c = "senate_row True"
  have 1: "\<exists>c \<in> set ?st. tree_id c = tree_id ?b \<and> cid c \<noteq> cid ?c \<and> slug c = ''news''"
    by (simp add: example_defs)
  have 2: "\<not> (\<exists>c \<in> set ?st. tree_id c = tree_id ?b \<and> cid c \<noteq> cid ?c \<and> slug c = ''senate'')"
    by (simp add: example_defs)
  from C8_validate_slug [of ?st ?c "Some ?b" "''news''"] 1
  have "validate_slug ?st ?c (Some ?b) ''news'' = Inl DuplicateSlug" by blast
  moreover from C8_validate_slug [of ?st ?c "Some ?b" "''senate''"] 2
  have "validate_slug ?st ?c (Some ?b) ''senate'' = Inr ()" by blast
  moreover from C8_validate_slug [of ?st ?c None "''news''"]
  have "validate_slug ?st ?c None ''news'' = Inr ()" by blast
  ultimately show ?thesis by simp
qed

subsection \<open>Memoization of the paths\<close>

lemma all_categories_unguarded:
  "at ''__all_categories'' = None \<Longrightarrow>
     CategoryBase_all_categories st at self d =
       Inr (all_categories_loop d (get_ancestors st self True) [],
            at(''_CategoryBase__all_categories'' \<mapsto>
                 all_categories_loop d (get_ancestors st self True) []))"
  by (simp add: CategoryBase_all_categories_def Let_def)

text \<open>
  C9. On an instance that has no attribute named \<open>__all_categories\<close> (nothing in the
  code sets one: the method stores its result under the mangled name), every call of
  \<open>all_categories\<close> computes its result from the ancestors in the table at the time of the
  call, whatever the earlier calls stored.
\<close>

theorem C9_all_categories_recomputes:
  assumes "at ''__all_categories'' = None"
  shows "repeated_all_categories at self d sts =
           map (\<lambda>st. Inr (all_categories_loop d (get_ancestors st self True) [])) sts"
  using assms
proof (induction sts arbitrary: at)
  case Nil
  show ?case by simp
next
  case (Cons st sts)
  let ?r = "all_categories_loop d (get_ancestors st self True) []"
  let ?at = "at(''_CategoryBase__all_categories'' \<mapsto> ?r)"
  have "?at ''__all_categories'' = None"
    using Cons.prems by simp
  then have "repeated_all_categories ?at self d sts =
           map (\<lambda>st. Inr (all_categories_loop d (get_ancestors st self True) [])) sts"
    by (rule Cons.IH)
  then show ?case
    using Cons.prems by (simp add: all_categories_unguarded)
qed

theorem C9_all_categories_recomputes_witness:
  "repeated_all_categories Map.empty (politics_row True) ''::''
      [example_tree True True True, renamed_tree]
    = [Inr [''News'', ''News::Politics''], Inr [''World'', ''World::Politics'']]"
proof -
  let ?b = "politics_row True"
  have e: "(Map.empty :: attrs) ''__all_categories'' = None" by simp
  have 1: "all_categories_loop ''::'' (get_ancestors (example_tree True True True) ?b True) []
             = [''News'', ''News::Politics'']"
    by code_simp
  have 2: "all_categories_loop ''::'' (get_ancestors renamed_tree ?b True) []
             = [''World'', ''World::Politics'']"
    by code_simp
  show ?thesis
    using C9_all_categories_recomputes
      [where at = Map.empty and self = ?b and d = "''::''"
         and sts = "[example_tree True True True, renamed_tree]", OF e]
    by (simp add: 1 2)
qed

end
